theory Spec2Isabelle
  imports Complex_Main "HOL-Library.Product_Lexorder" "HOL-Library.Multiset"
begin

section \<open>Royalty progressions and the royalty stack (royalties.py)\<close>

text \<open>
  The Python classes are embedded as records, the generators \<open>push\<close> and \<open>pop\<close> as
  functions that return the items yielded so far, the exception that ended the
  iteration (if any) and the stack as the generator left it. A generator is read
  to its end, unless an exception in its consumer abandons it (\<open>apply_statement\<close>).
  Python integers are \<open>int\<close>; the index \<open>_rate_index\<close> is a \<open>nat\<close>: it starts at 0 and
  is decremented only in the branch of \<open>pop\<close> that has just tested it to be different
  from 0. Dictionaries are maps, a failed lookup is the KeyError of the source, a
  list index out of range its IndexError.
\<close>

subsection \<open>Data\<close>

datatype error = IndexError | KeyError | ValueError | NotImplementedError

record Step =
  rate :: int
  limit :: int

record RoyaltyStack =
  progression :: "Step list"
  rates :: "int list"
  rate_index :: nat
  cursor :: "int \<rightharpoonup> int"
  limits :: "int \<rightharpoonup> int"

type_synonym yielded = "(int \<times> int) list \<times> error option \<times> RoyaltyStack"

subsection \<open>RoyaltyStack.__init__, _init_cursor and reset\<close>

definition init_cursor :: "Step list \<Rightarrow> (int \<rightharpoonup> int)" where
  "init_cursor p = fold (\<lambda>step m. m(rate step \<mapsto> 0)) p Map.empty"

text \<open>The loop \<open>for i, step in enumerate(self._progression)\<close> of the constructor.\<close>

function init_limits :: "Step list \<Rightarrow> nat \<Rightarrow> (int \<rightharpoonup> int) \<Rightarrow> (int \<rightharpoonup> int)" where
  "init_limits p i m =
     (if i < length p then
        (let step = p ! i in
         if i = 0 \<or> limit step = 0 then init_limits p (Suc i) (m(rate step \<mapsto> limit step))
         else (let prev_limit = limit (p ! (i - 1)) in
               init_limits p (Suc i) (m(rate step \<mapsto> limit step - prev_limit))))
      else m)"
  by pat_completeness auto
termination
  by (relation "measure (\<lambda>(p, i, m). length p - i)") auto

definition RoyaltyStack_init :: "Step list \<Rightarrow> RoyaltyStack" where
  "RoyaltyStack_init p =
     \<lparr>progression = p, rates = map rate p, rate_index = 0,
      cursor = init_cursor p, limits = init_limits p 0 Map.empty\<rparr>"

definition reset :: "RoyaltyStack \<Rightarrow> RoyaltyStack" where
  "reset s = s\<lparr>rate_index := 0, cursor := init_cursor (progression s)\<rparr>"

subsection \<open>push and pop\<close>

definition emit :: "int \<times> int \<Rightarrow> yielded \<Rightarrow> yielded" where
  "emit y r = (case r of (ys, e, s) \<Rightarrow> (y # ys, e, s))"

function push :: "int \<Rightarrow> RoyaltyStack \<Rightarrow> yielded" where
  "push copies s =
     (if copies > 0 then
        (if rate_index s < length (rates s) then
           (let cr = rates s ! rate_index s in
            case limits s cr of
              None \<Rightarrow> ([], Some KeyError, s)
            | Some lm \<Rightarrow>
               (case cursor s cr of
                  None \<Rightarrow> ([], Some KeyError, s)
                | Some cur \<Rightarrow>
                   if lm = 0 \<or> cur + copies \<le> lm then
                     emit (copies, cr)
                       (push 0 (s\<lparr>cursor := (cursor s)(cr \<mapsto> cur + copies)\<rparr>))
                   else
                     (let to_apply = lm - cur in
                      emit (to_apply, cr)
                        (push (copies - to_apply)
                           (s\<lparr>cursor := (cursor s)(cr \<mapsto> cur + to_apply),
                              rate_index := Suc (rate_index s)\<rparr>)))))
         else ([], Some IndexError, s))
      else ([], None, s))"
  by pat_completeness auto
termination
  by (relation "measure (\<lambda>(copies, s).
        if copies > 0 then Suc (length (rates s) - rate_index s) else 0)") auto

function pop :: "int \<Rightarrow> RoyaltyStack \<Rightarrow> yielded" where
  "pop copies s =
     (if copies > 0 then
        (if rate_index s < length (rates s) then
           (let cr = rates s ! rate_index s in
            case cursor s cr of
              None \<Rightarrow> ([], Some KeyError, s)
            | Some cur \<Rightarrow>
               if rate_index s = 0 \<or> cur - copies \<ge> 0 then
                 emit (copies * -1, cr)
                   (pop 0 (s\<lparr>cursor := (cursor s)(cr \<mapsto> cur - copies)\<rparr>))
               else
                 (let to_apply = cur in
                  emit (to_apply * -1, cr)
                    (pop (copies - to_apply)
                       (s\<lparr>cursor := (cursor s)(cr \<mapsto> 0),
                          rate_index := rate_index s - 1\<rparr>))))
         else ([], Some IndexError, s))
      else ([], None, s))"
  by pat_completeness auto
termination
  by (relation "measure (\<lambda>(copies, s).
        if copies > 0 then Suc (rate_index s) else 0)") auto

text \<open>\<open>Right._get_iterator\<close>: a negative number of copies is a return.\<close>

definition get_iterator :: "int \<Rightarrow> RoyaltyStack \<Rightarrow> yielded" where
  "get_iterator copies s = (if copies < 0 then pop (copies * -1) s else push copies s)"

abbreviation items :: "yielded \<Rightarrow> (int \<times> int) list" where
  "items r \<equiv> fst r"

abbreviation raised :: "yielded \<Rightarrow> error option" where
  "raised r \<equiv> fst (snd r)"

abbreviation stack_after :: "yielded \<Rightarrow> RoyaltyStack" where
  "stack_after r \<equiv> snd (snd r)"

subsection \<open>progression_is_valid and Right.__init__\<close>

text \<open>
  The loop of \<open>progression_is_valid\<close> with its early returns; the branches are tried in
  the order of the source: first step, then last step, then middle steps.
\<close>

function valid_loop :: "Step list \<Rightarrow> nat \<Rightarrow> bool" where
  "valid_loop p i =
     (if i < length p then
        (let step = p ! i in
         if i = 0 then
           (if rate step < 0 \<or> limit step < 0 then False else valid_loop p (Suc i))
         else if int i = int (length p) - 1 then
           (if rate step \<le> rate (p ! (i - 1)) \<or> limit step \<noteq> 0 then False
            else valid_loop p (Suc i))
         else
           (let prev_rate = rate (p ! (i - 1)); prev_limit = limit (p ! (i - 1)) in
            if rate step \<le> prev_rate \<or> limit step \<le> prev_limit then False
            else valid_loop p (Suc i)))
      else True)"
  by pat_completeness auto
termination
  by (relation "measure (\<lambda>(p, i). length p - i)") auto

definition progression_is_valid :: "Step list \<Rightarrow> bool" where
  "progression_is_valid p = valid_loop p 0"

text \<open>
  The class of a right decides its \<open>name\<close>; the base class raises NotImplementedError
  there. \<open>Right.__init__\<close> raises ValueError on a progression that is not valid.
\<close>

datatype RightKind = BaseRight | TradeVolumeRight | EbookRight

record Right =
  right_kind :: RightKind
  right_progression :: "Step list"
  royalty_stack :: RoyaltyStack

definition Right_init :: "RightKind \<Rightarrow> Step list \<Rightarrow> error + Right" where
  "Right_init k p =
     (if \<not> progression_is_valid p then Inl ValueError
      else Inr \<lparr>right_kind = k, right_progression = p,
                royalty_stack = RoyaltyStack_init p\<rparr>)"

definition Right_reset :: "Right \<Rightarrow> Right" where
  "Right_reset r = r\<lparr>royalty_stack := reset (royalty_stack r)\<rparr>"

fun right_name :: "RightKind \<Rightarrow> error + string" where
  "right_name BaseRight = Inl NotImplementedError"
| "right_name TradeVolumeRight = Inr ''trade volume''"
| "right_name EbookRight = Inr ''ebook''"


subsection \<open>Statements, decimal amounts and report items\<close>

text \<open>
  A \<open>datetime.date\<close> is the triple (year, month, day), ordered lexicographically as
  Python orders dates.

  \<open>decimal.Decimal\<close> belongs to the Python standard library, not to the repository.
  A finite Decimal is a signed coefficient and an exponent and stands for
  coefficient * 10 ^ exponent. The three operations that the repository uses are
  written after the library's arithmetic: the product with an \<open>int\<close> multiplies the
  coefficient and keeps the exponent; the quotient by 100 is exact and keeps the
  exponent as close to the dividend's as the digits allow; the difference is taken
  at the smaller of the two exponents. The context of the library rounds a result
  to 28 significant digits; the model covers the amounts that fit into them, for which
  the library computes exactly what is written here. NaN, infinities and the sign
  of a zero are outside the model.
\<close>

type_synonym date = "nat \<times> nat \<times> nat"

record Decimal =
  coefficient :: int
  exponent :: int


definition dec_mul_int :: "int \<Rightarrow> Decimal \<Rightarrow> Decimal" where
  "dec_mul_int n d = \<lparr>coefficient = n * coefficient d, exponent = exponent d\<rparr>"

definition dec_div_100 :: "Decimal \<Rightarrow> Decimal" where
  "dec_div_100 d =
     (if coefficient d mod 100 = 0
      then \<lparr>coefficient = coefficient d div 100, exponent = exponent d\<rparr>
      else if coefficient d mod 10 = 0
      then \<lparr>coefficient = coefficient d div 10, exponent = exponent d - 1\<rparr>
      else \<lparr>coefficient = coefficient d, exponent = exponent d - 2\<rparr>)"

definition dec_sub :: "Decimal \<Rightarrow> Decimal \<Rightarrow> Decimal" where
  "dec_sub a b =
     (let e = min (exponent a) (exponent b) in
      \<lparr>coefficient = coefficient a * 10 ^ nat (exponent a - e)
                      - coefficient b * 10 ^ nat (exponent b - e),
       exponent = e\<rparr>)"

datatype StatementKind = BaseStatement | TradeVolumeStatement | EbookStatement

record Statement =
  date :: date
  copies :: int
  price :: Decimal
  statement_kind :: StatementKind

fun statement_name :: "StatementKind \<Rightarrow> error + string" where
  "statement_name BaseStatement = Inl NotImplementedError"
| "statement_name TradeVolumeStatement = Inr ''trade volume''"
| "statement_name EbookStatement = Inr ''ebook''"

text \<open>The fields of a \<open>ReportItem\<close> carry the prefix \<open>item_\<close> where a field of the same
  name exists in \<open>Step\<close> or \<open>Statement\<close>.\<close>

record ReportItem =
  item_date :: date
  item_right :: string
  item_copies :: int
  item_rate :: string
  item_price :: Decimal
  advance_left :: "Decimal option"
  due :: Decimal

text \<open>\<open>str\<close> of an integer, for the label \<open>f'{rate}%'\<close>.\<close>

fun str_nat :: "nat \<Rightarrow> string" where
  "str_nat n = (if n < 10 then [''0123456789'' ! n]
                else str_nat (n div 10) @ [''0123456789'' ! (n mod 10)])"

definition str_int :: "int \<Rightarrow> string" where
  "str_int i = (if i < 0 then CHR ''-'' # str_nat (nat (- i)) else str_nat (nat i))"

subsection \<open>Right.apply_statement\<close>

definition report_item :: "Statement \<Rightarrow> string \<Rightarrow> int \<times> int \<Rightarrow> ReportItem" where
  "report_item stmt nm y =
     (case y of (c, r) \<Rightarrow>
        \<lparr>item_date = date stmt, item_right = nm, item_copies = c,
         item_rate = str_int r @ ''%'', item_price = price stmt, advance_left = None,
         due = dec_div_100 (dec_mul_int (c * r) (price stmt))\<rparr>)"

text \<open>
  The generator takes a pair from \<open>_get_iterator\<close> and builds the item, reading
  \<open>self.name\<close>. In the base class that read raises at the first pair, while \<open>push\<close> or
  \<open>pop\<close> is suspended at its first \<open>yield\<close>, before it has changed the stack.
\<close>

type_synonym reported = "ReportItem list \<times> error option \<times> Right"

definition apply_statement :: "Right \<Rightarrow> Statement \<Rightarrow> reported" where
  "apply_statement r stmt =
     (let run = get_iterator (copies stmt) (royalty_stack r) in
      case right_name (right_kind r) of
        Inr nm \<Rightarrow> (map (report_item stmt nm) (items run), raised run,
                   r\<lparr>royalty_stack := stack_after run\<rparr>)
      | Inl err \<Rightarrow> (if items run = [] then ([], raised run, r) else ([], Some err, r)))"

subsection \<open>Agreement\<close>

text \<open>
  The dictionary \<open>rights\<close> is the store of the rights of an agreement: a right is
  referred to by its key. \<open>advance\<close> is the Decimal that the constructor has made of
  its argument.
\<close>

record Agreement =
  advance :: Decimal
  rights :: "string \<rightharpoonup> Right"
  statements :: "Statement list"

definition add_right :: "Right \<Rightarrow> Agreement \<Rightarrow> error + Agreement" where
  "add_right r a =
     (case right_name (right_kind r) of
        Inl e \<Rightarrow> Inl e
      | Inr nm \<Rightarrow> Inr (a\<lparr>rights := (rights a)(nm \<mapsto> r)\<rparr>))"

fun add_rights :: "Right list \<Rightarrow> Agreement \<Rightarrow> error + Agreement" where
  "add_rights [] a = Inr a"
| "add_rights (r # rs) a = (case add_right r a of Inl e \<Rightarrow> Inl e | Inr a' \<Rightarrow> add_rights rs a')"

definition Agreement_init :: "Decimal \<Rightarrow> Right list option \<Rightarrow> error + Agreement" where
  "Agreement_init adv rs =
     (let a = \<lparr>advance = adv, rights = Map.empty, statements = []\<rparr> in
      case rs of None \<Rightarrow> Inr a | Some rl \<Rightarrow> add_rights rl a)"

definition add_statements :: "Statement list \<Rightarrow> Agreement \<Rightarrow> Agreement" where
  "add_statements ss a = a\<lparr>statements := statements a @ ss\<rparr>"

definition sort_statements :: "Agreement \<Rightarrow> Agreement" where
  "sort_statements a = a\<lparr>statements := sort_key date (statements a)\<rparr>"

definition reset_rights :: "Agreement \<Rightarrow> Agreement" where
  "reset_rights a = a\<lparr>rights := (\<lambda>k. map_option Right_reset (rights a k))\<rparr>"

text \<open>
  The list comprehension \<open>raw_items\<close> looks the right of every statement up before any
  item is produced; it gives one generator per statement, here the key of the right
  and the statement.
\<close>

fun raw_items :: "(string \<rightharpoonup> Right) \<Rightarrow> Statement list \<Rightarrow> error + (string \<times> Statement) list" where
  "raw_items rs [] = Inr []"
| "raw_items rs (s # ss) =
     (case statement_name (statement_kind s) of
        Inl e \<Rightarrow> Inl e
      | Inr nm \<Rightarrow>
         (case rs nm of
            None \<Rightarrow> Inl KeyError
          | Some r \<Rightarrow> (case raw_items rs ss of Inl e \<Rightarrow> Inl e | Inr gs \<Rightarrow> Inr ((nm, s) # gs))))"

text \<open>
  \<open>chain.from_iterable\<close> runs the generators one after the other; an exception ends
  the chain after the items already produced. (A key of \<open>raw_items\<close> is always found,
  see \<open>raw_items_keys\<close> and \<open>chain_dom\<close>.)
\<close>

fun chain :: "(string \<rightharpoonup> Right) \<Rightarrow> (string \<times> Statement) list
    \<Rightarrow> ReportItem list \<times> error option \<times> (string \<rightharpoonup> Right)" where
  "chain rs [] = ([], None, rs)"
| "chain rs ((nm, s) # gs) =
     (case rs nm of
        None \<Rightarrow> ([], Some KeyError, rs)
      | Some r \<Rightarrow>
         (case apply_statement r s of
            (its, Some e, r') \<Rightarrow> (its, Some e, rs(nm \<mapsto> r'))
          | (its, None, r') \<Rightarrow>
             (case chain (rs(nm \<mapsto> r')) gs of
                (its', e', rs') \<Rightarrow> (its @ its', e', rs'))))"

text \<open>The loop of \<open>apply_statements\<close> over the chained items.\<close>

fun running_advance :: "Decimal \<Rightarrow> ReportItem list \<Rightarrow> ReportItem list" where
  "running_advance adv_left [] = []"
| "running_advance adv_left (item # its) =
     (let adv_left' = dec_sub adv_left (due item) in
      item\<lparr>advance_left := Some adv_left'\<rparr> # running_advance adv_left' its)"

definition apply_statements :: "Agreement \<Rightarrow> ReportItem list \<times> error option \<times> Agreement" where
  "apply_statements a =
     (let a1 = sort_statements a;
          a2 = reset_rights a1 in
      case raw_items (rights a2) (statements a2) of
        Inl e \<Rightarrow> ([], Some e, a2)
      | Inr gs \<Rightarrow>
         (case chain (rights a2) gs of
            (its, e, rs') \<Rightarrow> (running_advance (advance a2) its, e, a2\<lparr>rights := rs'\<rparr>)))"

abbreviation report_items :: "ReportItem list \<times> error option \<times> Agreement \<Rightarrow> ReportItem list" where
  "report_items r \<equiv> fst r"

abbreviation agreement_after :: "ReportItem list \<times> error option \<times> Agreement \<Rightarrow> Agreement" where
  "agreement_after r \<equiv> snd (snd r)"

section \<open>Sequences of operations and the invariant of the stack\<close>

datatype operation = Push int | Pop int | Reset

fun apply_operation :: "operation \<Rightarrow> RoyaltyStack \<Rightarrow> RoyaltyStack" where
  "apply_operation (Push n) s = stack_after (push n s)"
| "apply_operation (Pop n) s = stack_after (pop n s)"
| "apply_operation Reset s = reset s"

definition run_operations :: "operation list \<Rightarrow> RoyaltyStack \<Rightarrow> RoyaltyStack" where
  "run_operations ops s = fold apply_operation ops s"

text \<open>
  The attribution of tier \<open>i\<close> is the entry of \<open>_cursor\<close> for its rate, its width the entry
  of \<open>_limits\<close> (0 stands for no upper limit), the cursor is \<open>_rate_index\<close>.
\<close>

definition tier_invariant :: "RoyaltyStack \<Rightarrow> bool" where
  "tier_invariant s =
     list_all (\<lambda>i. case (cursor s (rates s ! i), limits s (rates s ! i)) of
                  (Some attribution, Some width) \<Rightarrow>
                    (i < rate_index s \<longrightarrow> attribution = width) \<and>
                    (rate_index s < i \<longrightarrow> attribution = 0) \<and>
                    (i = rate_index s \<and> width \<noteq> 0 \<longrightarrow> attribution \<le> width)
                | _ \<Rightarrow> False)
       [0..<length (rates s)]"

text \<open>A progression whose last step has the limit 0, as the docstring of
  \<open>progression_is_valid\<close> requires.\<close>

definition ends_unbounded :: "Step list \<Rightarrow> bool" where
  "ends_unbounded p \<longleftrightarrow> p \<noteq> [] \<and> limit (last p) = 0"


section \<open>Predicates used in the proofs\<close>

text \<open>
  \<open>step_ok p j\<close> is what the loop of \<open>progression_is_valid\<close> checks at index \<open>j\<close>;
  \<open>stored_width p j\<close> is the entry that the constructor stores in \<open>_limits\<close> for step
  \<open>j\<close>. \<open>stack_inv\<close> is the invariant of a stack that is kept by \<open>push\<close>, \<open>pop\<close> and
  \<open>reset\<close>; \<open>top_open\<close> says that the last rate has no upper limit.
\<close>

definition step_ok :: "Step list \<Rightarrow> nat \<Rightarrow> bool" where
  "step_ok p j = (if j = 0 then 0 \<le> rate (p ! j) \<and> 0 \<le> limit (p ! j)
     else if Suc j = length p then rate (p ! (j - 1)) < rate (p ! j) \<and> limit (p ! j) = 0
     else rate (p ! (j - 1)) < rate (p ! j) \<and> limit (p ! (j - 1)) < limit (p ! j))"

definition stored_width :: "Step list \<Rightarrow> nat \<Rightarrow> int" where
  "stored_width p j = (if j = 0 \<or> limit (p ! j) = 0 then limit (p ! j)
                       else limit (p ! j) - limit (p ! (j - 1)))"

definition tier_ok :: "nat \<Rightarrow> nat \<Rightarrow> int \<Rightarrow> int \<Rightarrow> bool" where
  "tier_ok idx i c w \<longleftrightarrow> 0 \<le> w \<and> (i < idx \<longrightarrow> c = w \<and> w \<noteq> 0) \<and> (idx < i \<longrightarrow> c = 0) \<and>
     (i = idx \<longrightarrow> (w \<noteq> 0 \<longrightarrow> c \<le> w) \<and> (0 < i \<longrightarrow> 0 \<le> c))"

definition stack_inv :: "RoyaltyStack \<Rightarrow> bool" where
  "stack_inv s \<longleftrightarrow> map rate (progression s) = rates s \<and> distinct (rates s) \<and>
     rate_index s \<le> length (rates s) \<and>
     (\<forall>i<length (rates s). \<exists>c w. cursor s (rates s ! i) = Some c \<and>
        limits s (rates s ! i) = Some w \<and> tier_ok (rate_index s) i c w)"

definition top_open :: "RoyaltyStack \<Rightarrow> bool" where
  "top_open s \<longleftrightarrow> rates s \<noteq> [] \<and> limits s (last (rates s)) = Some 0"

text \<open>The two halves of \<open>apply_statements\<close>: sorting and resetting, and the production
  of the items.\<close>

definition prepare :: "Agreement \<Rightarrow> Agreement" where
  "prepare a = reset_rights (sort_statements a)"

definition produce :: "Agreement \<Rightarrow> ReportItem list \<times> error option \<times> Agreement" where
  "produce a2 =
     (case raw_items (rights a2) (statements a2) of
        Inl e \<Rightarrow> ([], Some e, a2)
      | Inr gs \<Rightarrow>
         (case chain (rights a2) gs of
            (its, e, rs') \<Rightarrow> (running_advance (advance a2) its, e, a2\<lparr>rights := rs'\<rparr>)))"


section \<open>Concrete progressions and stacks\<close>

definition tiers_7_8_9 :: "Step list" where
  "tiers_7_8_9 = [\<lparr>rate = 7, limit = 5000\<rparr>, \<lparr>rate = 8, limit = 10000\<rparr>,
                  \<lparr>rate = 9, limit = 0\<rparr>]"

definition single_tier :: "Step list" where
  "single_tier = [\<lparr>rate = 7, limit = 5000\<rparr>]"

text \<open>The stack after 5000 copies have been pushed on a fresh stack: the first tier
  is exactly full.\<close>

definition first_tier_full :: RoyaltyStack where
  "first_tier_full = stack_after (push 5000 (RoyaltyStack_init tiers_7_8_9))"

text \<open>The trade volume right and the first statement of the test suite
  (143 copies at 28.40 on 2016-06-30).\<close>

definition tvr :: Right where
  "tvr = \<lparr>right_kind = TradeVolumeRight, right_progression = tiers_7_8_9,
          royalty_stack = RoyaltyStack_init tiers_7_8_9\<rparr>"


text \<open>The ebook right, the statements and the agreement of \<open>test_apply_statements\<close>;
  prices are given in hundredths.\<close>

definition tiers_25_40 :: "Step list" where
  "tiers_25_40 = [\<lparr>rate = 25, limit = 1000\<rparr>, \<lparr>rate = 40, limit = 0\<rparr>]"

definition er :: Right where
  "er = \<lparr>right_kind = EbookRight, right_progression = tiers_25_40,
         royalty_stack = RoyaltyStack_init tiers_25_40\<rparr>"

definition statement :: "StatementKind \<Rightarrow> date \<Rightarrow> int \<Rightarrow> int \<Rightarrow> Statement" where
  "statement k d c p = \<lparr>date = d, copies = c, price = \<lparr>coefficient = p, exponent = - 2\<rparr>,
                        statement_kind = k\<rparr>"

definition test_agreement :: Agreement where
  "test_agreement =
     \<lparr>advance = \<lparr>coefficient = 1500, exponent = 0\<rparr>,
      rights = [''trade volume'' \<mapsto> tvr, ''ebook'' \<mapsto> er],
      statements =
        [statement TradeVolumeStatement (2016, 6, 30) 143 2840,
         statement EbookStatement (2016, 6, 30) 89 1356,
         statement TradeVolumeStatement (2016, 12, 31) 512 3490,
         statement EbookStatement (2016, 12, 31) 124 1423,
         statement TradeVolumeStatement (2017, 6, 30) (- 45) 3320]\<rparr>"


section \<open>Evaluation\<close>

declare str_nat.simps [simp del]

lemmas eval_defs = RoyaltyStack_init_def init_cursor_def emit_def get_iterator_def
  reset_def progression_is_valid_def push.simps pop.simps valid_loop.simps
  init_limits.simps tiers_7_8_9_def single_tier_def first_tier_full_def Let_def

declare push.simps [simp del] pop.simps [simp del] valid_loop.simps [simp del] init_limits.simps [simp del]

lemma valid_loop_iff: "valid_loop p i \<longleftrightarrow> (\<forall>j. i \<le> j \<and> j < length p \<longrightarrow> step_ok p j)"
proof (induction p i rule: valid_loop.induct)
  case (1 p i)
  show ?case
  proof (cases "i < length p")
    case False
    then show ?thesis by (subst valid_loop.simps) auto
  next
    case True
    have last_eq: "(int i = int (length p) - 1) = (Suc i = length p)" by auto
    have split: "(\<forall>j. i \<le> j \<and> j < length p \<longrightarrow> step_ok p j)
        \<longleftrightarrow> step_ok p i \<and> (\<forall>j. Suc i \<le> j \<and> j < length p \<longrightarrow> step_ok p j)"
      using True by (metis Suc_leI le_eq_less_or_eq Suc_le_lessD le_refl)
    show ?thesis
    proof (cases "step_ok p i")
      case False
      then show ?thesis using True unfolding split
        by (subst valid_loop.simps) (auto simp: step_ok_def Let_def last_eq split: if_splits)
    next
      case ok: True
      then have "valid_loop p i = valid_loop p (Suc i)" using True
        by (subst valid_loop.simps) (auto simp: step_ok_def Let_def last_eq split: if_splits)
      moreover have "valid_loop p (Suc i) \<longleftrightarrow> (\<forall>j. Suc i \<le> j \<and> j < length p \<longrightarrow> step_ok p j)"
        using 1 True ok by (auto simp: step_ok_def Let_def last_eq split: if_splits)
      ultimately show ?thesis unfolding split using ok by simp
    qed
  qed
qed


lemma valid_rates_increase:
  assumes "progression_is_valid p" "i < j" "j < length p"
  shows "rate (p ! i) < rate (p ! j)"
  using assms(2,3)
proof (induction j)
  case 0
  then show ?case by simp
next
  case (Suc j)
  have "step_ok p (Suc j)" using assms(1) Suc.prems
    by (simp add: progression_is_valid_def valid_loop_iff)
  then have step: "rate (p ! j) < rate (p ! Suc j)"
    by (auto simp: step_ok_def split: if_splits)
  show ?case
  proof (cases "i = j")
    case True
    then show ?thesis using step by simp
  next
    case False
    then have "rate (p ! i) < rate (p ! j)" using Suc by simp
    then show ?thesis using step by simp
  qed
qed

lemma valid_distinct_rates: "progression_is_valid p \<Longrightarrow> distinct (map rate p)"
  unfolding distinct_conv_nth
  by (metis valid_rates_increase length_map nth_map linorder_neqE_nat less_irrefl)

lemma init_limits_step:
  "i < length p \<Longrightarrow>
     init_limits p i m = init_limits p (Suc i) (m(rate (p ! i) \<mapsto> stored_width p i))"
  by (subst init_limits.simps) (simp add: Let_def stored_width_def)

lemma init_limits_done: "\<not> i < length p \<Longrightarrow> init_limits p i m = m"
  by (subst init_limits.simps) simp

lemma init_limits_nth:
  "distinct (map rate p) \<Longrightarrow> j < length p \<Longrightarrow>
     init_limits p i m (rate (p ! j)) = (if i \<le> j then Some (stored_width p j) else m (rate (p ! j)))"
proof (induction "length p - i" arbitrary: i m)
  case 0
  then show ?case by (simp add: init_limits_done)
next
  case (Suc k)
  then have i: "i < length p" by simp
  have neq: "rate (p ! j) = rate (p ! i) \<longleftrightarrow> j = i"
    using Suc.prems i by (metis length_map nth_eq_iff_index_eq nth_map)
  have "init_limits p (Suc i) (m(rate (p ! i) \<mapsto> stored_width p i)) (rate (p ! j)) =
        (if Suc i \<le> j then Some (stored_width p j)
         else (m(rate (p ! i) \<mapsto> stored_width p i)) (rate (p ! j)))"
    using Suc.hyps(1) [of "Suc i"] Suc.hyps(2) Suc.prems by simp
  then show ?case using neq by (auto simp: init_limits_step [OF i])
qed

lemma valid_width_nonneg:
  assumes "progression_is_valid p" "j < length p"
  shows "0 \<le> stored_width p j"
proof -
  have "step_ok p j" using assms by (simp add: progression_is_valid_def valid_loop_iff)
  then show ?thesis by (auto simp: step_ok_def stored_width_def split: if_splits)
qed

lemma init_cursor_fold:
  "fold (\<lambda>step m. m(rate step \<mapsto> 0)) p m k = (if k \<in> rate ` set p then Some 0 else m k)"
  by (induction p arbitrary: m) auto

lemma init_cursor_nth: "j < length p \<Longrightarrow> init_cursor p (rate (p ! j)) = Some 0"
  by (simp add: init_cursor_def init_cursor_fold)


lemma push_stop: "\<not> 0 < d \<Longrightarrow> push d s = ([], None, s)"
  by (subst push.simps) simp

lemma push_index_error:
  "0 < d \<Longrightarrow> \<not> rate_index s < length (rates s) \<Longrightarrow> push d s = ([], Some IndexError, s)"
  by (subst push.simps) simp

lemma push_fit:
  "\<lbrakk>0 < d; rate_index s < length (rates s); limits s (rates s ! rate_index s) = Some lm;
    cursor s (rates s ! rate_index s) = Some cur; lm = 0 \<or> cur + d \<le> lm\<rbrakk> \<Longrightarrow>
   push d s = ([(d, rates s ! rate_index s)], None,
               s\<lparr>cursor := (cursor s)(rates s ! rate_index s \<mapsto> cur + d)\<rparr>)"
  by (subst push.simps) (simp add: Let_def emit_def push_stop)

lemma push_spill:
  "\<lbrakk>0 < d; rate_index s < length (rates s); limits s (rates s ! rate_index s) = Some lm;
    cursor s (rates s ! rate_index s) = Some cur; \<not> (lm = 0 \<or> cur + d \<le> lm)\<rbrakk> \<Longrightarrow>
   push d s = emit (lm - cur, rates s ! rate_index s)
     (push (d - (lm - cur))
        (s\<lparr>cursor := (cursor s)(rates s ! rate_index s \<mapsto> lm),
           rate_index := Suc (rate_index s)\<rparr>))"
  by (subst push.simps) (simp add: Let_def)

lemma pop_stop: "\<not> 0 < d \<Longrightarrow> pop d s = ([], None, s)"
  by (subst pop.simps) simp

lemma pop_index_error:
  "0 < d \<Longrightarrow> \<not> rate_index s < length (rates s) \<Longrightarrow> pop d s = ([], Some IndexError, s)"
  by (subst pop.simps) simp

lemma pop_fit:
  "\<lbrakk>0 < d; rate_index s < length (rates s); cursor s (rates s ! rate_index s) = Some cur;
    rate_index s = 0 \<or> 0 \<le> cur - d\<rbrakk> \<Longrightarrow>
   pop d s = ([(- d, rates s ! rate_index s)], None,
              s\<lparr>cursor := (cursor s)(rates s ! rate_index s \<mapsto> cur - d)\<rparr>)"
  by (subst pop.simps) (simp add: Let_def emit_def pop_stop)

lemma pop_spill:
  "\<lbrakk>0 < d; rate_index s < length (rates s); cursor s (rates s ! rate_index s) = Some cur;
    \<not> (rate_index s = 0 \<or> 0 \<le> cur - d)\<rbrakk> \<Longrightarrow>
   pop d s = emit (- cur, rates s ! rate_index s)
     (pop (d - cur)
        (s\<lparr>cursor := (cursor s)(rates s ! rate_index s \<mapsto> 0),
           rate_index := rate_index s - 1\<rparr>))"
  by (subst pop.simps) (simp add: Let_def)

lemma stack_after_emit [simp]: "stack_after (emit y r) = stack_after r"
  by (cases r) (simp add: emit_def)

lemma raised_emit [simp]: "raised (emit y r) = raised r"
  by (cases r) (simp add: emit_def)

lemma items_emit [simp]: "items (emit y r) = y # items r"
  by (cases r) (simp add: emit_def)

lemma stack_inv_tier:
  "stack_inv s \<Longrightarrow> i < length (rates s) \<Longrightarrow>
     \<exists>c w. cursor s (rates s ! i) = Some c \<and> limits s (rates s ! i) = Some w \<and>
       tier_ok (rate_index s) i c w"
  by (simp add: stack_inv_def)

lemma stack_inv_update:
  assumes inv: "stack_inv s" and k: "k < length (rates s)" and idx: "idx' \<le> length (rates s)"
    and ok: "\<And>j cj wj. \<lbrakk>j < length (rates s); cursor s (rates s ! j) = Some cj;
                limits s (rates s ! j) = Some wj; tier_ok (rate_index s) j cj wj\<rbrakk>
             \<Longrightarrow> tier_ok idx' j (if j = k then c' else cj) wj"
  shows "stack_inv (s\<lparr>cursor := (cursor s)(rates s ! k \<mapsto> c'), rate_index := idx'\<rparr>)"
  unfolding stack_inv_def
proof (intro conjI allI impI)
  let ?s = "s\<lparr>cursor := (cursor s)(rates s ! k \<mapsto> c'), rate_index := idx'\<rparr>"
  fix j assume "j < length (rates ?s)"
  then have j: "j < length (rates s)" by simp
  from stack_inv_tier [OF inv j] obtain cj wj where
    t: "cursor s (rates s ! j) = Some cj" "limits s (rates s ! j) = Some wj"
       "tier_ok (rate_index s) j cj wj" by blast
  have neq: "rates s ! j = rates s ! k \<longleftrightarrow> j = k"
    using inv k j by (simp add: stack_inv_def nth_eq_iff_index_eq)
  show "\<exists>c w. cursor ?s (rates ?s ! j) = Some c \<and> limits ?s (rates ?s ! j) = Some w \<and>
          tier_ok (rate_index ?s) j c w"
    using t neq ok [OF j t] by (cases "j = k") auto
qed (use inv idx in \<open>simp_all add: stack_inv_def\<close>)

lemma push_fit_inv:
  assumes "stack_inv s" "rate_index s < length (rates s)"
    "cursor s (rates s ! rate_index s) = Some cur" "limits s (rates s ! rate_index s) = Some lm"
    "0 < d" "lm = 0 \<or> cur + d \<le> lm"
  shows "stack_inv (s\<lparr>cursor := (cursor s)(rates s ! rate_index s \<mapsto> cur + d)\<rparr>)"
proof -
  have "stack_inv (s\<lparr>cursor := (cursor s)(rates s ! rate_index s \<mapsto> cur + d),
                     rate_index := rate_index s\<rparr>)"
    using assms(1,2)
  proof (rule stack_inv_update)
    show "rate_index s \<le> length (rates s)" using assms(2) by simp
  next
    fix j cj wj
    assume "cursor s (rates s ! j) = Some cj" "limits s (rates s ! j) = Some wj"
      "tier_ok (rate_index s) j cj wj"
    then show "tier_ok (rate_index s) j (if j = rate_index s then cur + d else cj) wj"
      using assms(3-6) by (auto simp: tier_ok_def)
  qed
  then show ?thesis by simp
qed

lemma push_spill_inv:
  assumes "stack_inv s" "rate_index s < length (rates s)"
    "cursor s (rates s ! rate_index s) = Some cur" "limits s (rates s ! rate_index s) = Some lm"
    "\<not> (lm = 0 \<or> cur + d \<le> lm)"
  shows "stack_inv (s\<lparr>cursor := (cursor s)(rates s ! rate_index s \<mapsto> lm),
                      rate_index := Suc (rate_index s)\<rparr>)"
  using assms(1,2)
proof (rule stack_inv_update)
  show "Suc (rate_index s) \<le> length (rates s)" using assms(2) by simp
next
  fix j cj wj
  assume "cursor s (rates s ! j) = Some cj" "limits s (rates s ! j) = Some wj"
    "tier_ok (rate_index s) j cj wj"
  then show "tier_ok (Suc (rate_index s)) j (if j = rate_index s then lm else cj) wj"
    using assms(3-5) by (auto simp: tier_ok_def)
qed

lemma pop_fit_inv:
  assumes "stack_inv s" "rate_index s < length (rates s)"
    "cursor s (rates s ! rate_index s) = Some cur"
    "0 < d" "rate_index s = 0 \<or> 0 \<le> cur - d"
  shows "stack_inv (s\<lparr>cursor := (cursor s)(rates s ! rate_index s \<mapsto> cur - d)\<rparr>)"
proof -
  have "stack_inv (s\<lparr>cursor := (cursor s)(rates s ! rate_index s \<mapsto> cur - d),
                     rate_index := rate_index s\<rparr>)"
    using assms(1,2)
  proof (rule stack_inv_update)
    show "rate_index s \<le> length (rates s)" using assms(2) by simp
  next
    fix j cj wj
    assume "cursor s (rates s ! j) = Some cj" "limits s (rates s ! j) = Some wj"
      "tier_ok (rate_index s) j cj wj"
    then show "tier_ok (rate_index s) j (if j = rate_index s then cur - d else cj) wj"
      using assms(3-5) by (auto simp: tier_ok_def)
  qed
  then show ?thesis by simp
qed

lemma pop_spill_inv:
  assumes "stack_inv s" "rate_index s < length (rates s)"
    "cursor s (rates s ! rate_index s) = Some cur"
    "\<not> (rate_index s = 0 \<or> 0 \<le> cur - d)"
  shows "stack_inv (s\<lparr>cursor := (cursor s)(rates s ! rate_index s \<mapsto> 0),
                      rate_index := rate_index s - 1\<rparr>)"
  using assms(1,2)
proof (rule stack_inv_update)
  show "rate_index s - 1 \<le> length (rates s)" using assms(2) by simp
next
  fix j cj wj
  assume "cursor s (rates s ! j) = Some cj" "limits s (rates s ! j) = Some wj"
    "tier_ok (rate_index s) j cj wj"
  then show "tier_ok (rate_index s - 1) j (if j = rate_index s then 0 else cj) wj"
    using assms(3,4) by (auto simp: tier_ok_def)
qed

lemma top_open_index:
  assumes "stack_inv s" "top_open s"
  shows "rate_index s < length (rates s)"
proof (rule ccontr)
  assume "\<not> rate_index s < length (rates s)"
  then have eq: "rate_index s = length (rates s)" using assms(1) by (simp add: stack_inv_def)
  have n: "length (rates s) - 1 < length (rates s)" using assms(2) by (simp add: top_open_def)
  from stack_inv_tier [OF assms(1) n] obtain c w where
    "limits s (rates s ! (length (rates s) - 1)) = Some w"
    "tier_ok (rate_index s) (length (rates s) - 1) c w" by blast
  moreover have "limits s (rates s ! (length (rates s) - 1)) = Some 0"
    using assms(2) last_conv_nth [of "rates s"] by (simp add: top_open_def)
  ultimately show False using eq n by (auto simp: tier_ok_def)
qed

lemma push_props:
  "stack_inv s \<Longrightarrow>
     stack_inv (stack_after (push d s)) \<and>
     rates (stack_after (push d s)) = rates s \<and>
     limits (stack_after (push d s)) = limits s \<and>
     progression (stack_after (push d s)) = progression s \<and>
     (top_open s \<longrightarrow> raised (push d s) = None \<and>
        sum_list (map fst (items (push d s))) = (if 0 < d then d else 0) \<and>
        length (items (push d s)) \<le> length (rates s) - rate_index s)"
proof (induction "length (rates s) - rate_index s" arbitrary: d s)
  case 0
  then have "\<not> top_open s" using top_open_index by fastforce
  then show ?case using 0 by (cases "0 < d") (simp_all add: push_stop push_index_error)
next
  case (Suc n)
  then have i: "rate_index s < length (rates s)" by simp
  from stack_inv_tier [OF Suc.prems i] obtain cur lm where
    t: "cursor s (rates s ! rate_index s) = Some cur" "limits s (rates s ! rate_index s) = Some lm"
       "tier_ok (rate_index s) (rate_index s) cur lm" by blast
  show ?case
  proof (cases "0 < d")
    case False
    then show ?thesis using Suc.prems by (simp add: push_stop)
  next
    case d: True
    show ?thesis
    proof (cases "lm = 0 \<or> cur + d \<le> lm")
      case True
      show ?thesis
        using push_fit_inv [OF Suc.prems i t(1,2) d True] d i
        by (auto simp: push_fit [OF d i t(2) t(1) True])
    next
      case False
      let ?s1 = "s\<lparr>cursor := (cursor s)(rates s ! rate_index s \<mapsto> lm),
                    rate_index := Suc (rate_index s)\<rparr>"
      have inv1: "stack_inv ?s1" by (rule push_spill_inv [OF Suc.prems i t(1,2) False])
      have n: "n = length (rates ?s1) - rate_index ?s1" using Suc.hyps(2) by simp
      have top: "top_open ?s1 = top_open s" by (simp add: top_open_def)
      have "0 < d - (lm - cur)" using False by simp
      then show ?thesis
        using Suc.hyps(1) [OF n inv1, of "d - (lm - cur)"] top i d
        by (auto simp: push_spill [OF d i t(2) t(1) False])
    qed
  qed
qed

lemma pop_props:
  "stack_inv s \<Longrightarrow>
     stack_inv (stack_after (pop d s)) \<and>
     rates (stack_after (pop d s)) = rates s \<and>
     limits (stack_after (pop d s)) = limits s \<and>
     progression (stack_after (pop d s)) = progression s \<and>
     (top_open s \<longrightarrow> raised (pop d s) = None \<and>
        sum_list (map fst (items (pop d s))) = (if 0 < d then - d else 0) \<and>
        length (items (pop d s)) \<le> Suc (rate_index s))"
proof (induction "rate_index s" arbitrary: d s)
  case 0
  show ?case
  proof (cases "0 < d")
    case False
    then show ?thesis using "0.prems" by (simp add: pop_stop)
  next
    case d: True
    show ?thesis
    proof (cases "rate_index s < length (rates s)")
      case False
      then have "\<not> top_open s" using top_open_index "0.prems" by blast
      then show ?thesis using "0.prems" d False by (simp add: pop_index_error)
    next
      case i: True
      from stack_inv_tier [OF "0.prems" i] obtain cur lm where
        t: "cursor s (rates s ! rate_index s) = Some cur" by blast
      have fit: "rate_index s = 0 \<or> 0 \<le> cur - d" using "0.hyps" by simp
      show ?thesis
        using pop_fit_inv [OF "0.prems" i t d fit] d
        by (simp add: pop_fit [OF d i t fit])
    qed
  qed
next
  case (Suc n)
  show ?case
  proof (cases "0 < d")
    case False
    then show ?thesis using Suc.prems by (simp add: pop_stop)
  next
    case d: True
    show ?thesis
    proof (cases "rate_index s < length (rates s)")
      case False
      then have "\<not> top_open s" using top_open_index Suc.prems by blast
      then show ?thesis using Suc.prems d False by (simp add: pop_index_error)
    next
      case i: True
      from stack_inv_tier [OF Suc.prems i] obtain cur lm where
        t: "cursor s (rates s ! rate_index s) = Some cur" by blast
      show ?thesis
      proof (cases "rate_index s = 0 \<or> 0 \<le> cur - d")
        case fit: True
        show ?thesis
          using pop_fit_inv [OF Suc.prems i t d fit] d
          by (simp add: pop_fit [OF d i t fit])
      next
        case False
        let ?s1 = "s\<lparr>cursor := (cursor s)(rates s ! rate_index s \<mapsto> 0),
                      rate_index := rate_index s - 1\<rparr>"
        have inv1: "stack_inv ?s1" by (rule pop_spill_inv [OF Suc.prems i t False])
        have n: "n = rate_index ?s1" using Suc.hyps(2) by simp
        have top: "top_open ?s1 = top_open s" by (simp add: top_open_def)
        have "0 < d - cur" using False by simp
        then show ?thesis
          using Suc.hyps(1) [OF n inv1, of "d - cur"] top Suc.hyps(2) d
          by (simp add: pop_spill [OF d i t False])
      qed
    qed
  qed
qed

lemma push_inv: "stack_inv s \<Longrightarrow> stack_inv (stack_after (push d s))"
  by (simp add: push_props)

lemma pop_inv: "stack_inv s \<Longrightarrow> stack_inv (stack_after (pop d s))"
  by (simp add: pop_props)

lemma pop_shift:
  assumes i: "rate_index s < length (rates s)"
    and c: "cursor s (rates s ! rate_index s) = Some cur"
    and pos: "0 < rate_index s \<longrightarrow> 0 \<le> cur" and a: "0 \<le> a" and e: "0 \<le> e"
  shows "cursor (stack_after (pop (a + e)
            (s\<lparr>cursor := (cursor s)(rates s ! rate_index s \<mapsto> cur + a)\<rparr>)))
         = cursor (stack_after (pop e s))"
proof (cases "a + e = 0")
  case True
  then have "a = 0" "e = 0" using a e by simp_all
  then show ?thesis using c by (simp add: pop_stop fun_upd_idem)
next
  case False
  then have ae: "0 < a + e" using a e by simp
  let ?s' = "s\<lparr>cursor := (cursor s)(rates s ! rate_index s \<mapsto> cur + a)\<rparr>"
  have i': "rate_index ?s' < length (rates ?s')" using i by simp
  have c': "cursor ?s' (rates ?s' ! rate_index ?s') = Some (cur + a)" by simp
  show ?thesis
  proof (cases "rate_index s = 0 \<or> 0 \<le> cur - e")
    case fit: True
    then have fit': "rate_index ?s' = 0 \<or> 0 \<le> (cur + a) - (a + e)" by simp
    show ?thesis
    proof (cases "e = 0")
      case True
      then show ?thesis using c pop_fit [OF ae i' c' fit']
        by (simp add: pop_stop fun_upd_idem)
    next
      case False
      then have "0 < e" using e by simp
      then show ?thesis
        by (simp add: pop_fit [OF ae i' c' fit'] pop_fit [OF _ i c fit])
    qed
  next
    case False
    then have nofit': "\<not> (rate_index ?s' = 0 \<or> 0 \<le> (cur + a) - (a + e))" by simp
    have "0 < e" using False pos by auto
    then show ?thesis
      by (simp add: pop_spill [OF ae i' c' nofit'] pop_spill [OF _ i c False])
  qed
qed

lemma pop_empty_tier:
  assumes i: "rate_index s < length (rates s)"
    and c: "cursor s (rates s ! rate_index s) = Some 0"
    and k: "rate_index s = Suc k" and a: "0 < a"
  shows "stack_after (pop a s) = stack_after (pop a (s\<lparr>rate_index := k\<rparr>))"
proof -
  have nofit: "\<not> (rate_index s = 0 \<or> 0 \<le> 0 - a)" using k a by simp
  have "s\<lparr>cursor := (cursor s)(rates s ! rate_index s \<mapsto> 0), rate_index := rate_index s - 1\<rparr>
        = s\<lparr>rate_index := k\<rparr>"
    using c k by (simp add: fun_upd_idem)
  then show ?thesis by (simp add: pop_spill [OF a i c nofit])
qed

lemma push_shift:
  assumes i: "rate_index s < length (rates s)"
    and c: "cursor s (rates s ! rate_index s) = Some cur"
    and w: "limits s (rates s ! rate_index s) = Some lm"
    and le: "lm \<noteq> 0 \<longrightarrow> cur \<le> lm" and a: "0 \<le> a" and e: "0 \<le> e"
  shows "cursor (stack_after (push (a + e)
            (s\<lparr>cursor := (cursor s)(rates s ! rate_index s \<mapsto> cur - a)\<rparr>)))
         = cursor (stack_after (push e s))"
proof (cases "a + e = 0")
  case True
  then have "a = 0" "e = 0" using a e by simp_all
  then show ?thesis using c by (simp add: push_stop fun_upd_idem)
next
  case False
  then have ae: "0 < a + e" using a e by simp
  let ?s' = "s\<lparr>cursor := (cursor s)(rates s ! rate_index s \<mapsto> cur - a)\<rparr>"
  have i': "rate_index ?s' < length (rates ?s')" using i by simp
  have c': "cursor ?s' (rates ?s' ! rate_index ?s') = Some (cur - a)" by simp
  have w': "limits ?s' (rates ?s' ! rate_index ?s') = Some lm" using w by simp
  show ?thesis
  proof (cases "lm = 0 \<or> cur + e \<le> lm")
    case fit: True
    then have fit': "lm = 0 \<or> (cur - a) + (a + e) \<le> lm" by simp
    show ?thesis
    proof (cases "e = 0")
      case True
      then show ?thesis using c push_fit [OF ae i' w' c' fit']
        by (simp add: push_stop fun_upd_idem)
    next
      case False
      then have "0 < e" using e by simp
      then show ?thesis
        by (simp add: push_fit [OF ae i' w' c' fit'] push_fit [OF _ i w c fit])
    qed
  next
    case False
    then have nofit': "\<not> (lm = 0 \<or> (cur - a) + (a + e) \<le> lm)" by simp
    have "0 < e" using False le by auto
    then show ?thesis
      by (simp add: push_spill [OF ae i' w' c' nofit'] push_spill [OF _ i w c False]
          algebra_simps)
  qed
qed

lemma push_full_tier:
  assumes i: "rate_index s < length (rates s)"
    and c: "cursor s (rates s ! rate_index s) = Some lm"
    and w: "limits s (rates s ! rate_index s) = Some lm"
    and nz: "lm \<noteq> 0" and a: "0 < a"
  shows "stack_after (push a s) = stack_after (push a (s\<lparr>rate_index := Suc (rate_index s)\<rparr>))"
proof -
  have nofit: "\<not> (lm = 0 \<or> lm + a \<le> lm)" using nz a by simp
  have "s\<lparr>cursor := (cursor s)(rates s ! rate_index s \<mapsto> lm),
          rate_index := Suc (rate_index s)\<rparr> = s\<lparr>rate_index := Suc (rate_index s)\<rparr>"
    using c by (simp add: fun_upd_idem)
  then show ?thesis by (simp add: push_spill [OF a i w c nofit])
qed

lemma pop_after_push:
  "\<lbrakk>stack_inv s; top_open s; 0 < d; 0 \<le> e\<rbrakk> \<Longrightarrow>
     cursor (stack_after (pop (d + e) (stack_after (push d s)))) = cursor (stack_after (pop e s))"
proof (induction "length (rates s) - rate_index s" arbitrary: d e s)
  case 0
  then show ?case using top_open_index by fastforce
next
  case (Suc n)
  then have i: "rate_index s < length (rates s)" by simp
  note inv = Suc.prems(1) and top = Suc.prems(2) and d = Suc.prems(3) and e = Suc.prems(4)
  from stack_inv_tier [OF inv i] obtain cur lm where
    t: "cursor s (rates s ! rate_index s) = Some cur" "limits s (rates s ! rate_index s) = Some lm"
       "tier_ok (rate_index s) (rate_index s) cur lm" by blast
  have pos: "0 < rate_index s \<longrightarrow> 0 \<le> cur" using t(3) by (simp add: tier_ok_def)
  show ?case
  proof (cases "lm = 0 \<or> cur + d \<le> lm")
    case True
    show ?thesis
      using pop_shift [OF i t(1) pos _ e, of d] d
      by (simp add: push_fit [OF d i t(2) t(1) True])
  next
    case False
    let ?s1 = "s\<lparr>cursor := (cursor s)(rates s ! rate_index s \<mapsto> lm),
                  rate_index := Suc (rate_index s)\<rparr>"
    have inv1: "stack_inv ?s1" by (rule push_spill_inv [OF inv i t(1,2) False])
    have top1: "top_open ?s1" using top by (simp add: top_open_def)
    have i1: "rate_index ?s1 < length (rates ?s1)" by (rule top_open_index [OF inv1 top1])
    have n: "n = length (rates ?s1) - rate_index ?s1" using Suc.hyps(2) by simp
    have ta: "0 \<le> lm - cur" using t(3) False by (auto simp: tier_ok_def)
    have d1: "0 < d - (lm - cur)" using False by simp
    have e1: "0 \<le> (lm - cur) + e" using ta e by simp
    have "cursor (stack_after (pop (d - (lm - cur) + ((lm - cur) + e))
             (stack_after (push (d - (lm - cur)) ?s1))))
          = cursor (stack_after (pop ((lm - cur) + e) ?s1))"
      by (rule Suc.hyps(1) [OF n inv1 top1 d1 e1])
    then have step: "cursor (stack_after (pop (d + e) (stack_after (push d s))))
          = cursor (stack_after (pop ((lm - cur) + e) ?s1))"
      by (simp add: push_spill [OF d i t(2) t(1) False])
    show ?thesis
    proof (cases "(lm - cur) + e = 0")
      case True
      then have "lm = cur" "e = 0" using ta e by simp_all
      then show ?thesis using step t(1) by (simp add: pop_stop fun_upd_idem)
    next
      case nz: False
      then have a: "0 < (lm - cur) + e" using e1 by simp
      have above: "Suc (rate_index s) < length (rates s)" using i1 by simp
      from stack_inv_tier [OF inv above] obtain c2 w2 where
        t2: "cursor s (rates s ! Suc (rate_index s)) = Some c2"
            "tier_ok (rate_index s) (Suc (rate_index s)) c2 w2" by blast
      then have "c2 = 0" by (simp add: tier_ok_def)
      moreover have "rates s ! Suc (rate_index s) \<noteq> rates s ! rate_index s"
        using inv i above by (simp add: stack_inv_def nth_eq_iff_index_eq)
      ultimately have c1: "cursor ?s1 (rates ?s1 ! rate_index ?s1) = Some 0"
        using t2(1) by simp
      have k1: "rate_index ?s1 = Suc (rate_index s)" by simp
      have "stack_after (pop ((lm - cur) + e) ?s1)
            = stack_after (pop ((lm - cur) + e) (?s1\<lparr>rate_index := rate_index s\<rparr>))"
        by (rule pop_empty_tier [OF i1 c1 k1 a])
      moreover have "?s1\<lparr>rate_index := rate_index s\<rparr>
            = s\<lparr>cursor := (cursor s)(rates s ! rate_index s \<mapsto> cur + (lm - cur))\<rparr>"
        by simp
      ultimately show ?thesis using step pop_shift [OF i t(1) pos ta e] by simp
    qed
  qed
qed

lemma push_after_pop:
  "\<lbrakk>stack_inv s; top_open s; 0 < d; 0 \<le> e\<rbrakk> \<Longrightarrow>
     cursor (stack_after (push (d + e) (stack_after (pop d s)))) = cursor (stack_after (push e s))"
proof (induction "rate_index s" arbitrary: d e s)
  case 0
  note inv = "0.prems"(1) and top = "0.prems"(2) and d = "0.prems"(3) and e = "0.prems"(4)
  have i: "rate_index s < length (rates s)" by (rule top_open_index [OF inv top])
  from stack_inv_tier [OF inv i] obtain cur lm where
    t: "cursor s (rates s ! rate_index s) = Some cur" "limits s (rates s ! rate_index s) = Some lm"
       "tier_ok (rate_index s) (rate_index s) cur lm" by blast
  have le: "lm \<noteq> 0 \<longrightarrow> cur \<le> lm" using t(3) by (simp add: tier_ok_def)
  have fit: "rate_index s = 0 \<or> 0 \<le> cur - d" using "0.hyps" by simp
  show ?case
    using push_shift [OF i t(1,2) le _ e, of d] d
    by (simp add: pop_fit [OF d i t(1) fit])
next
  case (Suc n)
  note inv = Suc.prems(1) and top = Suc.prems(2) and d = Suc.prems(3) and e = Suc.prems(4)
  have i: "rate_index s < length (rates s)" by (rule top_open_index [OF inv top])
  from stack_inv_tier [OF inv i] obtain cur lm where
    t: "cursor s (rates s ! rate_index s) = Some cur" "limits s (rates s ! rate_index s) = Some lm"
       "tier_ok (rate_index s) (rate_index s) cur lm" by blast
  have le: "lm \<noteq> 0 \<longrightarrow> cur \<le> lm" using t(3) by (simp add: tier_ok_def)
  have pos: "0 \<le> cur" using t(3) Suc.hyps(2) by (simp add: tier_ok_def)
  show ?case
  proof (cases "rate_index s = 0 \<or> 0 \<le> cur - d")
    case fit: True
    show ?thesis
      using push_shift [OF i t(1,2) le _ e, of d] d
      by (simp add: pop_fit [OF d i t(1) fit])
  next
    case False
    let ?s1 = "s\<lparr>cursor := (cursor s)(rates s ! rate_index s \<mapsto> 0),
                  rate_index := rate_index s - 1\<rparr>"
    have inv1: "stack_inv ?s1" by (rule pop_spill_inv [OF inv i t(1) False])
    have top1: "top_open ?s1" using top by (simp add: top_open_def)
    have i1: "rate_index ?s1 < length (rates ?s1)" by (rule top_open_index [OF inv1 top1])
    have n: "n = rate_index ?s1" using Suc.hyps(2) by simp
    have d1: "0 < d - cur" using False by simp
    have e1: "0 \<le> cur + e" using pos e by simp
    have "cursor (stack_after (push (d - cur + (cur + e)) (stack_after (pop (d - cur) ?s1))))
          = cursor (stack_after (push (cur + e) ?s1))"
      by (rule Suc.hyps(1) [OF n inv1 top1 d1 e1])
    then have step: "cursor (stack_after (push (d + e) (stack_after (pop d s))))
          = cursor (stack_after (push (cur + e) ?s1))"
      by (simp add: pop_spill [OF d i t(1) False])
    show ?thesis
    proof (cases "cur + e = 0")
      case True
      then have "cur = 0" "e = 0" using pos e by simp_all
      then show ?thesis using step t(1) by (simp add: push_stop fun_upd_idem)
    next
      case nz: False
      then have a: "0 < cur + e" using e1 by simp
      have below: "n < length (rates s)" using i Suc.hyps(2) by simp
      from stack_inv_tier [OF inv below] obtain c2 w2 where
        t2: "cursor s (rates s ! n) = Some c2" "limits s (rates s ! n) = Some w2"
            "tier_ok (rate_index s) n c2 w2" by blast
      then have full: "c2 = w2" "w2 \<noteq> 0" using Suc.hyps(2) by (simp_all add: tier_ok_def)
      have neq: "rates s ! n \<noteq> rates s ! rate_index s"
        using inv i below Suc.hyps(2) by (simp add: stack_inv_def nth_eq_iff_index_eq)
      have idx1: "rate_index ?s1 = n" using Suc.hyps(2) by simp
      have c1: "cursor ?s1 (rates ?s1 ! rate_index ?s1) = Some w2"
        using t2(1) full neq idx1 by simp
      have w1: "limits ?s1 (rates ?s1 ! rate_index ?s1) = Some w2"
        using t2(2) idx1 by simp
      have "stack_after (push (cur + e) ?s1)
            = stack_after (push (cur + e) (?s1\<lparr>rate_index := Suc (rate_index ?s1)\<rparr>))"
        by (rule push_full_tier [OF i1 c1 w1 full(2) a])
      moreover have "?s1\<lparr>rate_index := Suc (rate_index ?s1)\<rparr>
            = s\<lparr>cursor := (cursor s)(rates s ! rate_index s \<mapsto> cur - cur)\<rparr>"
        using Suc.hyps(2) by simp
      ultimately show ?thesis using step push_shift [OF i t(1,2) le pos e] by simp
    qed
  qed
qed

lemma init_inv: "progression_is_valid p \<Longrightarrow> stack_inv (RoyaltyStack_init p)"
  unfolding stack_inv_def RoyaltyStack_init_def
  by (auto simp: valid_distinct_rates init_cursor_nth init_limits_nth tier_ok_def
      valid_width_nonneg)

lemma reset_inv: "stack_inv s \<Longrightarrow> stack_inv (reset s)"
  unfolding stack_inv_def reset_def
proof (intro conjI allI impI)
  let ?s = "s\<lparr>rate_index := 0, cursor := init_cursor (progression s)\<rparr>"
  assume a: "map rate (progression s) = rates s \<and> distinct (rates s) \<and>
    rate_index s \<le> length (rates s) \<and>
    (\<forall>i<length (rates s). \<exists>c w. cursor s (rates s ! i) = Some c \<and>
        limits s (rates s ! i) = Some w \<and> tier_ok (rate_index s) i c w)"
  fix i assume "i < length (rates ?s)"
  then have i: "i < length (rates s)" by simp
  then have ip: "i < length (progression s)" using a by (metis length_map)
  have "rates s ! i = rate (progression s ! i)" using a ip by (metis nth_map)
  then have c: "init_cursor (progression s) (rates s ! i) = Some 0"
    using init_cursor_nth [OF ip] by simp
  from a i obtain cj w where "limits s (rates s ! i) = Some w" "tier_ok (rate_index s) i cj w"
    by blast
  then show "\<exists>c w. cursor ?s (rates ?s ! i) = Some c \<and> limits ?s (rates ?s ! i) = Some w \<and>
          tier_ok (rate_index ?s) i c w"
    using c by (auto simp: tier_ok_def)
qed simp_all

lemma run_operations_inv: "stack_inv s \<Longrightarrow> stack_inv (run_operations ops s)"
  unfolding run_operations_def
proof (induction ops arbitrary: s)
  case Nil
  then show ?case by simp
next
  case (Cons a ops)
  have "stack_inv (apply_operation a s)"
    using Cons.prems by (cases a) (simp_all add: push_inv pop_inv reset_inv)
  then show ?case using Cons.IH by simp
qed

lemma stack_inv_tier_invariant: "stack_inv s \<Longrightarrow> tier_invariant s"
  unfolding tier_invariant_def list_all_iff
proof
  fix i assume "stack_inv s" "i \<in> set [0..<length (rates s)]"
  then have "i < length (rates s)" by simp
  from stack_inv_tier [OF \<open>stack_inv s\<close> this]
  show "case (cursor s (rates s ! i), limits s (rates s ! i)) of
          (Some attribution, Some width) \<Rightarrow>
            (i < rate_index s \<longrightarrow> attribution = width) \<and>
            (rate_index s < i \<longrightarrow> attribution = 0) \<and>
            (i = rate_index s \<and> width \<noteq> 0 \<longrightarrow> attribution \<le> width)
        | _ \<Rightarrow> False"
    by (auto simp: tier_ok_def)
qed
lemma valid_ends_unbounded_top_open:
  assumes "progression_is_valid p" "ends_unbounded p"
  shows "top_open (RoyaltyStack_init p)"
proof -
  have n: "length p - 1 < length p" using assms(2) by (simp add: ends_unbounded_def)
  have "last (map rate p) = rate (p ! (length p - 1))"
    using assms(2) by (simp add: ends_unbounded_def last_map last_conv_nth)
  moreover have "limit (p ! (length p - 1)) = 0"
    using assms(2) last_conv_nth [of p] by (simp add: ends_unbounded_def)
  then have "stored_width p (length p - 1) = 0"
    by (simp add: stored_width_def)
  ultimately show ?thesis
    using assms init_limits_nth [OF valid_distinct_rates [OF assms(1)] n, of 0 Map.empty]
    by (simp add: top_open_def RoyaltyStack_init_def ends_unbounded_def)
qed

lemma reset_static:
  "rates (reset s) = rates s" "limits (reset s) = limits s" "progression (reset s) = progression s"
  by (simp_all add: reset_def)

lemma run_operations_top_open:
  "stack_inv s \<Longrightarrow> top_open s \<Longrightarrow> top_open (run_operations ops s)"
  unfolding run_operations_def
proof (induction ops arbitrary: s)
  case Nil
  then show ?case by simp
next
  case (Cons a ops)
  have "stack_inv (apply_operation a s)"
    using Cons.prems(1) by (cases a) (simp_all add: push_inv pop_inv reset_inv)
  moreover have "top_open (apply_operation a s)"
    using Cons.prems by (cases a) (simp_all add: top_open_def push_props pop_props reset_static)
  ultimately show ?case using Cons.IH by simp
qed

lemma run_operations_length:
  "stack_inv s \<Longrightarrow> length (rates (run_operations ops s)) = length (rates s)"
  unfolding run_operations_def
proof (induction ops arbitrary: s)
  case Nil
  then show ?case by simp
next
  case (Cons a ops)
  have "stack_inv (apply_operation a s)"
    using Cons.prems(1) by (cases a) (simp_all add: push_inv pop_inv reset_inv)
  moreover have "length (rates (apply_operation a s)) = length (rates s)"
    using Cons.prems by (cases a) (simp_all add: push_props pop_props reset_static)
  ultimately show ?case using Cons.IH by simp
qed

text \<open>
  For a valid progression whose last limit is 0, every call of \<open>_get_iterator\<close> on a
  stack reached by pushes, pops and resets ends without an exception, yields
  quantities whose sum is the argument, and yields at most one pair per step of
  the progression.
\<close>

lemma get_iterator_when_ends_unbounded:
  assumes "progression_is_valid p" "ends_unbounded p"
  shows "raised (get_iterator d (run_operations ops (RoyaltyStack_init p))) = None
       \<and> sum_list (map fst (items (get_iterator d (run_operations ops (RoyaltyStack_init p))))) = d
       \<and> length (items (get_iterator d (run_operations ops (RoyaltyStack_init p)))) \<le> length p"
proof -
  let ?s = "run_operations ops (RoyaltyStack_init p)"
  have inv: "stack_inv ?s" by (simp add: init_inv run_operations_inv assms(1))
  have top: "top_open ?s"
    by (simp add: run_operations_top_open init_inv assms valid_ends_unbounded_top_open)
  have len: "length (rates ?s) = length p"
    using run_operations_length [OF init_inv [OF assms(1)], of ops]
    by (simp add: RoyaltyStack_init_def)
  have idx: "rate_index ?s < length p" using top_open_index [OF inv top] len by simp
  show ?thesis
  proof (cases "d < 0")
    case True
    then show ?thesis
      using pop_props [OF inv, of "- d"] top len idx by (simp add: get_iterator_def)
  next
    case False
    then show ?thesis
      using push_props [OF inv, of d] top len by (auto simp: get_iterator_def)
  qed
qed

text \<open>
  A progression of at least two steps is rejected by \<open>Right.__init__\<close> whenever its last
  limit is not 0, a rate does not increase, a limit before the last does not
  increase, or the first rate or limit is negative.
\<close>

lemma invalid_progression_rejected:
  assumes "2 \<le> length p"
    and "limit (last p) \<noteq> 0
       \<or> (\<exists>i. Suc i < length p \<and> rate (p ! Suc i) \<le> rate (p ! i))
       \<or> (\<exists>i. Suc (Suc i) < length p \<and> limit (p ! Suc i) \<le> limit (p ! i))
       \<or> rate (p ! 0) < 0 \<or> limit (p ! 0) < 0"
  shows "Right_init k p = Inl ValueError"
proof -
  have "\<not> progression_is_valid p"
  proof
    assume "progression_is_valid p"
    then have ok: "\<And>j. j < length p \<Longrightarrow> step_ok p j"
      by (simp add: progression_is_valid_def valid_loop_iff)
    have "limit (p ! (length p - 1)) = 0"
      using ok [of "length p - 1"] assms(1) by (auto simp: step_ok_def split: if_splits)
    moreover have ne: "p \<noteq> []" using assms(1) by auto
    ultimately have l: "limit (last p) = 0"
      using last_conv_nth [of p] by simp
    have r: "rate (p ! i) < rate (p ! Suc i)" if "Suc i < length p" for i
      using ok [of "Suc i"] that by (auto simp: step_ok_def split: if_splits)
    have m: "limit (p ! i) < limit (p ! Suc i)" if "Suc (Suc i) < length p" for i
      using ok [of "Suc i"] that by (auto simp: step_ok_def split: if_splits)
    have f: "0 \<le> rate (p ! 0) \<and> 0 \<le> limit (p ! 0)"
      using ok [of 0] ne by (simp add: step_ok_def)
    from assms(2) l r m f show False by (metis not_le)
  qed
  then show ?thesis by (simp add: Right_init_def)
qed


section \<open>Decimal amounts, statements and agreements\<close>





lemma unchanged_stack: "\<exists>c i. s = s\<lparr>cursor := c, rate_index := i\<rparr>"
  by (rule exI [of _ "cursor s"], rule exI [of _ "rate_index s"]) simp

lemma cursor_update_only: "\<exists>c i. s\<lparr>cursor := c0\<rparr> = s\<lparr>cursor := c, rate_index := i\<rparr>"
  by (rule exI [of _ c0], rule exI [of _ "rate_index s"]) simp

lemma push_changes_only:
  "\<exists>c i. stack_after (push d s) = s\<lparr>cursor := c, rate_index := i\<rparr>"
proof (induction "length (rates s) - rate_index s" arbitrary: d s)
  case 0
  show ?case using 0 unchanged_stack [of s]
    by (cases "0 < d") (simp_all add: push_stop push_index_error)
next
  case (Suc n)
  then have i: "rate_index s < length (rates s)" by simp
  note id = unchanged_stack [of s]
  show ?case
  proof (cases "0 < d")
    case False
    then show ?thesis using id by (simp add: push_stop)
  next
    case d: True
    show ?thesis
    proof (cases "limits s (rates s ! rate_index s)")
      case None
      then have "push d s = ([], Some KeyError, s)" using d i by (subst push.simps) simp
      then show ?thesis using id by simp
    next
      case (Some lm)
      show ?thesis
      proof (cases "cursor s (rates s ! rate_index s)")
        case None
        then have "push d s = ([], Some KeyError, s)"
          using d i Some by (subst push.simps) simp
        then show ?thesis using id by simp
      next
        case (Some cur)
        show ?thesis
        proof (cases "lm = 0 \<or> cur + d \<le> lm")
          case True
          show ?thesis
            unfolding push_fit [OF d i \<open>limits s (rates s ! rate_index s) = Some lm\<close> Some True]
            using cursor_update_only by simp
        next
          case False
          let ?s1 = "s\<lparr>cursor := (cursor s)(rates s ! rate_index s \<mapsto> lm),
                        rate_index := Suc (rate_index s)\<rparr>"
          have "n = length (rates ?s1) - rate_index ?s1" using Suc.hyps(2) by simp
          from Suc.hyps(1) [OF this, of "d - (lm - cur)"] obtain c j where
            "stack_after (push (d - (lm - cur)) ?s1) = ?s1\<lparr>cursor := c, rate_index := j\<rparr>"
            by blast
          then have "stack_after (push d s) = s\<lparr>cursor := c, rate_index := j\<rparr>"
            by (simp add: push_spill [OF d i \<open>limits s (rates s ! rate_index s) = Some lm\<close> Some False])
          then show ?thesis by blast
        qed
      qed
    qed
  qed
qed

lemma pop_changes_only:
  "\<exists>c i. stack_after (pop d s) = s\<lparr>cursor := c, rate_index := i\<rparr>"
proof (induction "rate_index s" arbitrary: d s rule: less_induct)
  case less
  note id = unchanged_stack [of s]
  show ?case
  proof (cases "0 < d")
    case False
    then show ?thesis using id by (simp add: pop_stop)
  next
    case d: True
    show ?thesis
    proof (cases "rate_index s < length (rates s)")
      case False
      then show ?thesis using id d by (simp add: pop_index_error)
    next
      case i: True
      show ?thesis
      proof (cases "cursor s (rates s ! rate_index s)")
        case None
        then have "pop d s = ([], Some KeyError, s)" using d i by (subst pop.simps) simp
        then show ?thesis using id by simp
      next
        case (Some cur)
        show ?thesis
        proof (cases "rate_index s = 0 \<or> 0 \<le> cur - d")
          case True
          show ?thesis unfolding pop_fit [OF d i Some True]
            using cursor_update_only by simp
        next
          case False
          let ?s1 = "s\<lparr>cursor := (cursor s)(rates s ! rate_index s \<mapsto> 0),
                        rate_index := rate_index s - 1\<rparr>"
          have "rate_index ?s1 < rate_index s" using False by simp
          from less.hyps [OF this, of "d - cur"] obtain c j where
            "stack_after (pop (d - cur) ?s1) = ?s1\<lparr>cursor := c, rate_index := j\<rparr>"
            by blast
          then have "stack_after (pop d s) = s\<lparr>cursor := c, rate_index := j\<rparr>"
            by (simp add: pop_spill [OF d i Some False])
          then show ?thesis by blast
        qed
      qed
    qed
  qed
qed

lemma reset_after_get_iterator: "reset (stack_after (get_iterator d s)) = reset s"
proof -
  have "\<exists>c i. stack_after (get_iterator d s) = s\<lparr>cursor := c, rate_index := i\<rparr>"
    using push_changes_only [of d s] pop_changes_only [of "d * - 1" s]
    by (cases "d < 0") (simp_all add: get_iterator_def)
  then obtain c i where "stack_after (get_iterator d s) = s\<lparr>cursor := c, rate_index := i\<rparr>"
    by blast
  then show ?thesis by (simp add: reset_def)
qed

lemma reset_idem: "reset (reset s) = reset s"
  by (simp add: reset_def)

lemma Right_reset_idem: "Right_reset (Right_reset r) = Right_reset r"
  by (simp add: Right_reset_def reset_idem)

lemma apply_statement_reset:
  "apply_statement r s = (its, e, r') \<Longrightarrow> Right_reset r' = Right_reset r"
  by (auto simp: apply_statement_def Let_def Right_reset_def reset_after_get_iterator
      split: sum.splits if_splits)

lemma chain_reset:
  "chain rs gs = (its, e, rs') \<Longrightarrow>
     (\<lambda>k. map_option Right_reset (rs' k)) = (\<lambda>k. map_option Right_reset (rs k))"
proof (induction gs arbitrary: rs its e rs')
  case Nil
  then show ?case by simp
next
  case (Cons g gs)
  obtain nm s where g: "g = (nm, s)" by (cases g)
  show ?case
  proof (cases "rs nm")
    case None
    then show ?thesis using Cons.prems g by simp
  next
    case (Some r)
    obtain its1 e1 r1 where a: "apply_statement r s = (its1, e1, r1)"
      by (cases "apply_statement r s")
    have r1: "Right_reset r1 = Right_reset r" by (rule apply_statement_reset [OF a])
    have upd: "(\<lambda>k. map_option Right_reset ((rs(nm \<mapsto> r1)) k))
               = (\<lambda>k. map_option Right_reset (rs k))"
      using Some r1 by (auto simp: fun_eq_iff)
    show ?thesis
    proof (cases e1)
      case None
      obtain its2 e2 rs2 where c: "chain (rs(nm \<mapsto> r1)) gs = (its2, e2, rs2)"
        by (cases "chain (rs(nm \<mapsto> r1)) gs")
      have "rs' = rs2" using Cons.prems g Some a None c by simp
      then show ?thesis using Cons.IH [OF c] upd by simp
    next
      case (Some err)
      then have "rs' = rs(nm \<mapsto> r1)" using Cons.prems g \<open>rs nm = Some r\<close> a by simp
      then show ?thesis using upd by simp
    qed
  qed
qed

lemma apply_statements_produce: "apply_statements a = produce (prepare a)"
  by (simp add: apply_statements_def produce_def prepare_def Let_def)

lemma prepare_idem: "prepare (prepare a) = prepare a"
  by (simp add: prepare_def reset_rights_def sort_statements_def sort_key_id_if_sorted
      option.map_comp comp_def Right_reset_idem)


lemma prepare_after_produce:
  assumes "prepare a2 = a2"
  shows "prepare (snd (snd (produce a2))) = a2"
proof (cases "raw_items (rights a2) (statements a2)")
  case (Inl e)
  then show ?thesis using assms by (simp add: produce_def)
next
  case (Inr gs)
  obtain its e rs' where c: "chain (rights a2) gs = (its, e, rs')"
    by (cases "chain (rights a2) gs")
  have "(\<lambda>k. map_option Right_reset (rs' k)) = (\<lambda>k. map_option Right_reset (rights a2 k))"
    by (rule chain_reset [OF c])
  then have "prepare (a2\<lparr>rights := rs'\<rparr>) = prepare a2"
    by (simp add: prepare_def reset_rights_def sort_statements_def)
  then show ?thesis using Inr c assms by (simp add: produce_def)
qed

lemma apply_statements_again:
  "apply_statements (snd (snd (apply_statements a))) = apply_statements a"
  using prepare_after_produce [OF prepare_idem, of a]
  by (simp add: apply_statements_produce)



















text \<open>The embedding reproduces \<open>test_apply_statements\<close> of the test suite.\<close>

lemma test_apply_statements:
  "map (\<lambda>item. (item_date item, item_right item, item_copies item, item_rate item,
                 due item, advance_left item))
     (report_items (apply_statements test_agreement))
   = [((2016, 6, 30), ''trade volume'', 143, ''7%'',
       \<lparr>coefficient = 284284, exponent = - 3\<rparr>, Some \<lparr>coefficient = 1215716, exponent = - 3\<rparr>),
      ((2016, 6, 30), ''ebook'', 89, ''25%'',
       \<lparr>coefficient = 30171, exponent = - 2\<rparr>, Some \<lparr>coefficient = 914006, exponent = - 3\<rparr>),
      ((2016, 12, 31), ''trade volume'', 512, ''7%'',
       \<lparr>coefficient = 1250816, exponent = - 3\<rparr>, Some \<lparr>coefficient = - 336810, exponent = - 3\<rparr>),
      ((2016, 12, 31), ''ebook'', 124, ''25%'',
       \<lparr>coefficient = 44113, exponent = - 2\<rparr>, Some \<lparr>coefficient = - 777940, exponent = - 3\<rparr>),
      ((2017, 6, 30), ''trade volume'', - 45, ''7%'',
       \<lparr>coefficient = - 10458, exponent = - 2\<rparr>, Some \<lparr>coefficient = - 673360, exponent = - 3\<rparr>)]"
  by code_simp

text \<open>Further facts about the model: the empty progression is accepted too and breaks
  \<open>push\<close>; the entries of \<open>_limits\<close> never change; a key taken from \<open>raw_items\<close> is found
  by \<open>chain\<close>, because the keys of the dictionary of rights never change.\<close>

lemma empty_progression_accepted:
  "progression_is_valid []
   \<and> raised (get_iterator 1 (RoyaltyStack_init [])) = Some IndexError"
  by (simp add: eval_defs)

lemma run_operations_limits: "limits (run_operations ops s) = limits s"
  unfolding run_operations_def
proof (induction ops arbitrary: s)
  case Nil
  then show ?case by simp
next
  case (Cons a ops)
  have "limits (apply_operation a s) = limits s"
  proof (cases a)
    case (Push n)
    obtain c i where "stack_after (push n s) = s\<lparr>cursor := c, rate_index := i\<rparr>"
      using push_changes_only by blast
    then show ?thesis using Push by simp
  next
    case (Pop n)
    obtain c i where "stack_after (pop n s) = s\<lparr>cursor := c, rate_index := i\<rparr>"
      using pop_changes_only by blast
    then show ?thesis using Pop by simp
  next
    case Reset
    then show ?thesis by (simp add: reset_def)
  qed
  then show ?case using Cons.IH [of "apply_operation a s"] by simp
qed

text \<open>The width of a tier is the width that \<open>__init__\<close> has derived from the limits of
  the progression, whatever has been pushed and popped.\<close>

lemma width_of_tier:
  assumes "progression_is_valid p" "i < length p"
  shows "limits (run_operations ops (RoyaltyStack_init p)) (rate (p ! i))
         = Some (if i = 0 \<or> limit (p ! i) = 0 then limit (p ! i)
                 else limit (p ! i) - limit (p ! (i - 1)))"
  using init_limits_nth [OF valid_distinct_rates [OF assms(1)] assms(2), of 0 Map.empty]
  by (simp add: run_operations_limits RoyaltyStack_init_def stored_width_def)

lemma raw_items_keys: "raw_items rs ss = Inr gs \<Longrightarrow> fst ` set gs \<subseteq> dom rs"
proof (induction ss arbitrary: gs)
  case Nil
  then show ?case by simp
next
  case (Cons s ss)
  from Cons.prems obtain nm r gs' where
    "statement_name (statement_kind s) = Inr nm" "rs nm = Some r"
    "raw_items rs ss = Inr gs'" "gs = (nm, s) # gs'"
    by (auto split: sum.splits option.splits)
  then show ?case using Cons.IH [of gs'] by auto
qed

lemma chain_dom:
  "fst ` set gs \<subseteq> dom rs \<Longrightarrow> chain rs gs = (its, e, rs') \<Longrightarrow> dom rs' = dom rs"
proof (induction gs arbitrary: rs its e rs')
  case Nil
  then show ?case by simp
next
  case (Cons g gs)
  obtain nm s where g: "g = (nm, s)" by (cases g)
  then obtain r where r: "rs nm = Some r" using Cons.prems(1) by auto
  obtain its1 e1 r1 where a: "apply_statement r s = (its1, e1, r1)"
    by (cases "apply_statement r s")
  have d: "dom (rs(nm \<mapsto> r1)) = dom rs" using r by auto
  show ?case
  proof (cases e1)
    case None
    obtain its2 e2 rs2 where c: "chain (rs(nm \<mapsto> r1)) gs = (its2, e2, rs2)"
      by (cases "chain (rs(nm \<mapsto> r1)) gs")
    have eq: "rs' = rs2" using Cons.prems(2) g r a None c by simp
    have "fst ` set gs \<subseteq> dom (rs(nm \<mapsto> r1))" using Cons.prems(1) d by auto
    then have "dom rs2 = dom (rs(nm \<mapsto> r1))" by (rule Cons.IH [OF _ c])
    then show ?thesis unfolding eq d .
  next
    case (Some err)
    then have eq: "rs' = rs(nm \<mapsto> r1)" using Cons.prems(2) g r a by simp
    show ?thesis unfolding eq by (rule d)
  qed
qed

section \<open>The claims\<close>

text \<open>
  C1 (conservation). The claim holds for every progression whose last limit is 0
  (lemma \<open>get_iterator_when_ends_unbounded\<close>), but \<open>progression_is_valid\<close> also accepts
  the single step (7, 5000): there 5001 copies pushed on a fresh stack yield
  [(5000, 7)] and then IndexError is raised, so the yielded quantities sum to 5000
  and not to 5001.
\<close>

theorem C1_single_tier_loses_copies:
  "progression_is_valid single_tier
   \<and> items (get_iterator 5001 (RoyaltyStack_init single_tier)) = [(5000, 7)]
   \<and> raised (get_iterator 5001 (RoyaltyStack_init single_tier)) = Some IndexError
   \<and> sum_list (map fst (items (get_iterator 5001 (RoyaltyStack_init single_tier)))) \<noteq> 5001"
  by (simp add: eval_defs)

text \<open>
  C2, as stated, fails: from the stack whose first tier is exactly full (rate index 0),
  one copy pushed and one copy popped leave the rate index at 1.
\<close>

theorem C2_rate_index_not_restored:
  "progression_is_valid tiers_7_8_9
   \<and> rate_index first_tier_full = 0
   \<and> raised (get_iterator 1 first_tier_full) = None
   \<and> raised (get_iterator (- 1) (stack_after (get_iterator 1 first_tier_full))) = None
   \<and> rate_index (stack_after (get_iterator (- 1) (stack_after (get_iterator 1 first_tier_full)))) = 1"
  by (simp add: eval_defs)

text \<open>
  C2, amended. For a valid progression whose last limit is 0, a stack reached by pushes,
  pops and resets, and every integer d: \<open>_get_iterator(d)\<close> followed by
  \<open>_get_iterator(-d)\<close>, both read to their end, raise nothing and leave the
  dictionary \<open>_cursor\<close>, that is the attribution of every tier, as it was before.
  (The rate index need not come back.)
\<close>

theorem C2_attributions_round_trip:
  assumes "progression_is_valid p" "ends_unbounded p"
  shows "raised (get_iterator d (run_operations ops (RoyaltyStack_init p))) = None
       \<and> raised (get_iterator (- d)
            (stack_after (get_iterator d (run_operations ops (RoyaltyStack_init p))))) = None
       \<and> cursor (stack_after (get_iterator (- d)
            (stack_after (get_iterator d (run_operations ops (RoyaltyStack_init p))))))
         = cursor (run_operations ops (RoyaltyStack_init p))"
proof -
  let ?s = "run_operations ops (RoyaltyStack_init p)"
  have inv: "stack_inv ?s" by (simp add: init_inv run_operations_inv assms(1))
  have top: "top_open ?s"
    by (simp add: run_operations_top_open init_inv assms valid_ends_unbounded_top_open)
  consider "d < 0" | "d = 0" | "0 < d" by linarith
  then show ?thesis
  proof cases
    case 1
    have top': "top_open (stack_after (pop (- d) ?s))"
      using pop_props [OF inv, of "- d"] top by (simp add: top_open_def)
    have "raised (push (- d) (stack_after (pop (- d) ?s))) = None"
      using push_props [of "stack_after (pop (- d) ?s)" "- d"] pop_props [OF inv, of "- d"] top'
      by simp
    moreover have "raised (pop (- d) ?s) = None" using pop_props [OF inv, of "- d"] top by simp
    moreover have "cursor (stack_after (push (- d) (stack_after (pop (- d) ?s)))) = cursor ?s"
      using push_after_pop [OF inv top, of "- d" 0] 1 by (simp add: push_stop)
    ultimately show ?thesis using 1 by (simp add: get_iterator_def)
  next
    case 2
    then show ?thesis by (simp add: get_iterator_def push_stop)
  next
    case 3
    have top': "top_open (stack_after (push d ?s))"
      using push_props [OF inv, of d] top by (simp add: top_open_def)
    have "raised (pop d (stack_after (push d ?s))) = None"
      using pop_props [of "stack_after (push d ?s)" d] push_props [OF inv, of d] top'
      by simp
    moreover have "raised (push d ?s) = None" using push_props [OF inv, of d] top by simp
    moreover have "cursor (stack_after (pop d (stack_after (push d ?s)))) = cursor ?s"
      using pop_after_push [OF inv top, of d 0] 3 by (simp add: pop_stop)
    ultimately show ?thesis using 3 by (simp add: get_iterator_def)
  qed
qed

theorem C2_attributions_round_trip_witness:
  "progression_is_valid tiers_7_8_9 \<and> ends_unbounded tiers_7_8_9
   \<and> cursor (stack_after (get_iterator (- 1)
        (stack_after (get_iterator 1 (run_operations [Push 5000] (RoyaltyStack_init tiers_7_8_9))))))
     = cursor (run_operations [Push 5000] (RoyaltyStack_init tiers_7_8_9))"
proof -
  have v: "progression_is_valid tiers_7_8_9" by (simp add: eval_defs)
  have u: "ends_unbounded tiers_7_8_9" by (simp add: ends_unbounded_def tiers_7_8_9_def)
  show ?thesis
    using v u C2_attributions_round_trip [OF v u, of 1 "[Push 5000]"] by simp
qed

text \<open>
  C3 (rejection of invalid progressions). The claim holds for progressions of two or
  more steps (lemma \<open>invalid_progression_rejected\<close>), but not for a single step:
  the step (7, 5000) is first and last at once, the loop takes the branch of the first
  step and never tests its limit, and \<open>Right.__init__\<close> returns a right.
\<close>

theorem C3_single_tier_accepted:
  "limit (last single_tier) \<noteq> 0
   \<and> progression_is_valid single_tier
   \<and> Right_init TradeVolumeRight single_tier
     = Inr \<lparr>right_kind = TradeVolumeRight, right_progression = single_tier,
            royalty_stack = RoyaltyStack_init single_tier\<rparr>"
  by (simp add: Right_init_def progression_is_valid_def valid_loop.simps single_tier_def)

text \<open>
  C4 (no runtime errors, bounded output). The claim holds for every progression whose
  last limit is 0 (lemma \<open>get_iterator_when_ends_unbounded\<close>), but on the accepted
  single step (7, 5000) 6000 copies raise IndexError, and so does every later return,
  because the rate index stays behind the end of the rates.
\<close>

theorem C4_single_tier_raises:
  "progression_is_valid single_tier
   \<and> raised (get_iterator 6000 (RoyaltyStack_init single_tier)) = Some IndexError
   \<and> rate_index (stack_after (get_iterator 6000 (RoyaltyStack_init single_tier))) = 1
   \<and> raised (get_iterator (- 1)
        (stack_after (get_iterator 6000 (RoyaltyStack_init single_tier)))) = Some IndexError"
  by (simp add: eval_defs)

text \<open>
  C5 (boundary exactness). With the tiers (7,5000), (8,10000), (9,0) and a fresh stack,
  4999 copies are yielded as [(4999,7)], then 5002 copies as [(1,7),(5000,8),(1,9)],
  then 7000 copies as [(7000,9)], and no call raises.
\<close>

theorem C5_boundary_exactness:
  "(let r1 = get_iterator 4999 (RoyaltyStack_init tiers_7_8_9);
        r2 = get_iterator 5002 (stack_after r1);
        r3 = get_iterator 7000 (stack_after r2)
    in items r1 = [(4999, 7)] \<and> raised r1 = None
     \<and> items r2 = [(1, 7), (5000, 8), (1, 9)] \<and> raised r2 = None
     \<and> items r3 = [(7000, 9)] \<and> raised r3 = None)"
  by (simp add: eval_defs)

text \<open>
  C6 (negative attribution is allowed). With the same tiers and a fresh stack, a return
  of 500 copies is yielded as [(-500,7)] and leaves -500 in the cursor of rate 7 without
  raising; 5500 copies pushed next are yielded as [(5500,7)], leave 5000 there and leave
  the rate index at 0, the index of rate 7.
\<close>

theorem C6_negative_attribution:
  "(let r1 = get_iterator (- 500) (RoyaltyStack_init tiers_7_8_9);
        r2 = get_iterator 5500 (stack_after r1)
    in items r1 = [(- 500, 7)] \<and> raised r1 = None
     \<and> cursor (stack_after r1) 7 = Some (- 500)
     \<and> items r2 = [(5500, 7)] \<and> raised r2 = None
     \<and> cursor (stack_after r2) 7 = Some 5000
     \<and> rate_index (stack_after r2) = 0
     \<and> rates (stack_after r2) ! 0 = 7)"
  by (simp add: eval_defs)

text \<open>
  C7 (tier invariant). For every progression that \<open>progression_is_valid\<close> accepts and
  every sequence of pushes, pops and resets on a fresh stack (each generator read to
  its end, also when it ends by an exception), every tier below the rate index holds
  exactly its width, every tier above it holds 0, and the tier at the rate index
  holds at most its width unless that width is the 0 that stands for no limit.
\<close>

theorem C7_tier_invariant:
  "progression_is_valid p \<Longrightarrow> tier_invariant (run_operations ops (RoyaltyStack_init p))"
  by (simp add: init_inv run_operations_inv stack_inv_tier_invariant)

theorem C7_tier_invariant_witness:
  "progression_is_valid tiers_7_8_9
   \<and> tier_invariant (run_operations [Push 5001, Pop 2, Reset, Push 12500, Pop 6000]
        (RoyaltyStack_init tiers_7_8_9))"
proof -
  have v: "progression_is_valid tiers_7_8_9" by (simp add: eval_defs)
  show ?thesis
    using v C7_tier_invariant [OF v, of "[Push 5001, Pop 2, Reset, Push 12500, Pop 6000]"]
    by simp
qed






text \<open>
  C10. For every agreement, \<open>apply_statements\<close> read to its end twice in succession
  produces the same report items both times, and ends the same way (with the same
  exception, or none).
\<close>

theorem C10_apply_statements_twice:
  "report_items (apply_statements (agreement_after (apply_statements a)))
     = report_items (apply_statements a)
   \<and> fst (snd (apply_statements (agreement_after (apply_statements a))))
     = fst (snd (apply_statements a))"
  by (simp add: apply_statements_again)

end
